theory Spec2Isabelle
  imports Main "HOL-Library.Word"
begin

unbundle bit_operations_syntax

section \<open>Machine model\<close>

text \<open>
  The arena of \<^verbatim>\<open>arena.h\<close> on a 64-bit target: \<^verbatim>\<open>uintptr_t\<close> and \<^verbatim>\<open>size_t\<close>
  are 64-bit words whose arithmetic wraps, a pointer is the address it holds, and
  memory is a store from addresses to bytes. The arena owns the block of \<^verbatim>\<open>cap\<close>
  bytes at \<^verbatim>\<open>mem\<close> and nothing else: an access of the arena's code outside that
  block, or through a null pointer, is undefined behaviour in C and a fault here, as
  is a failed \<^verbatim>\<open>assert\<close>. A fault carries the state at the moment it happens.
\<close>

type_synonym uintptr_t = "64 word"
type_synonym size_t = "64 word"
type_synonym byte = "8 word"

abbreviation (input) NULL :: uintptr_t where
  "NULL \<equiv> 0"

text \<open>The value of \<^verbatim>\<open>ENOMEM\<close> in \<^verbatim>\<open>errno.h\<close> on Linux; nothing below depends on the number.\<close>

definition ENOMEM :: nat where
  "ENOMEM = 12"

record arena =
  mem :: uintptr_t
  cap :: size_t
  curr_offset :: size_t
  prev_offset :: size_t

record machine =
  ar :: arena
  heap :: "uintptr_t \<Rightarrow> byte"
  errno :: nat

datatype fault = AssertionFailed | NullPointer | OutOfBounds

type_synonym 'a result = "(fault \<times> machine) + ('a \<times> machine)"

subsection \<open>Memory primitives of the C library\<close>

text \<open>The \<open>n\<close> bytes at \<open>p\<close> lie inside the arena's block.\<close>

definition in_block :: "arena \<Rightarrow> uintptr_t \<Rightarrow> size_t \<Rightarrow> bool" where
  "in_block a p n \<longleftrightarrow> unat (p - mem a) + unat n \<le> unat (cap a)"

text \<open>
  \<^verbatim>\<open>memset(p, c, n)\<close>. A call with \<open>n = 0\<close> touches no byte. Address \<open>x\<close> is one of
  the \<open>n\<close> bytes at \<open>p\<close> exactly when \<open>x - p < n\<close> in unsigned arithmetic.
\<close>

definition memset :: "machine \<Rightarrow> uintptr_t \<Rightarrow> byte \<Rightarrow> size_t \<Rightarrow> (fault \<times> machine) + machine" where
  "memset s p c n =
     (if n = 0 then Inr s
      else if p = NULL then Inl (NullPointer, s)
      else if \<not> in_block (ar s) p n then Inl (OutOfBounds, s)
      else Inr (s\<lparr>heap := (\<lambda>x. if x - p < n then c else heap s x)\<rparr>))"

text \<open>\<^verbatim>\<open>memmove(dst, src, n)\<close>: every byte is read from the store as it was before the call.\<close>

definition memmove :: "machine \<Rightarrow> uintptr_t \<Rightarrow> uintptr_t \<Rightarrow> size_t \<Rightarrow> (fault \<times> machine) + machine" where
  "memmove s dst src n =
     (if n = 0 then Inr s
      else if dst = NULL \<or> src = NULL then Inl (NullPointer, s)
      else if \<not> (in_block (ar s) dst n \<and> in_block (ar s) src n) then Inl (OutOfBounds, s)
      else Inr (s\<lparr>heap := (\<lambda>x. if x - dst < n then heap s (src + (x - dst)) else heap s x)\<rparr>))"

text \<open>
  The source of a duplication is an object of the caller outside the arena's block,
  given by its bytes. \<^verbatim>\<open>memcpy(dst, src, n)\<close> reads the first \<open>n\<close> of them.
\<close>

definition memcpy :: "machine \<Rightarrow> uintptr_t \<Rightarrow> byte list \<Rightarrow> size_t \<Rightarrow> (fault \<times> machine) + machine" where
  "memcpy s dst src n =
     (if n = 0 then Inr s
      else if dst = NULL then Inl (NullPointer, s)
      else if length src < unat n \<or> \<not> in_block (ar s) dst n then Inl (OutOfBounds, s)
      else Inr (s\<lparr>heap := (\<lambda>x. if x - dst < n then src ! unat (x - dst) else heap s x)\<rparr>))"

text \<open>The assignment \<^verbatim>\<open>p[0] = c\<close> of one byte.\<close>

definition store_byte :: "machine \<Rightarrow> uintptr_t \<Rightarrow> byte \<Rightarrow> (fault \<times> machine) + machine" where
  "store_byte s p c =
     (if p = NULL then Inl (NullPointer, s)
      else if \<not> in_block (ar s) p 1 then Inl (OutOfBounds, s)
      else Inr (s\<lparr>heap := (heap s)(p := c)\<rparr>))"

text \<open>\<^verbatim>\<open>strlen\<close>: the number of bytes before the first zero byte of the source object.\<close>

definition strlen :: "byte list \<Rightarrow> fault + size_t" where
  "strlen src =
     (if 0 \<in> set src then Inr (word_of_nat (length (takeWhile (\<lambda>b. b \<noteq> 0) src)))
      else Inl OutOfBounds)"

text \<open>
  \<^verbatim>\<open>strnlen\<close>: the same count, looking at no more than \<open>n\<close> bytes; it leaves the source
  object only when the object ends before \<open>n\<close> bytes and before a zero byte.
\<close>

definition strnlen :: "byte list \<Rightarrow> size_t \<Rightarrow> fault + size_t" where
  "strnlen src n =
     (let k = length (takeWhile (\<lambda>b. b \<noteq> 0) (take (unat n) src))
      in if k < unat n \<and> length src \<le> k then Inl OutOfBounds else Inr (word_of_nat k))"

section \<open>Alignment primitives\<close>

definition pow_2 :: "uintptr_t \<Rightarrow> bool" where
  "pow_2 v \<longleftrightarrow> v AND (v - 1) = 0"

definition align_forward :: "uintptr_t \<Rightarrow> size_t \<Rightarrow> fault + uintptr_t" where
  "align_forward ptr alignment =
     (if \<not> pow_2 alignment then Inl AssertionFailed
      else
        let p = ptr;
            a = alignment;
            md = p AND (a - 1)
        in Inr (if md \<noteq> 0 then p + (a - md) else p))"

section \<open>The arena allocator\<close>

definition ARENA_DEFAULT_ALIGNMENT :: size_t where
  "ARENA_DEFAULT_ALIGNMENT = 2 * 8"

definition arena_aligned_alloc :: "machine \<Rightarrow> size_t \<Rightarrow> size_t \<Rightarrow> uintptr_t result" where
  "arena_aligned_alloc s alignment sz =
     (let a = ar s;
          curr = mem a + curr_offset a
      in case align_forward curr alignment of
           Inl f \<Rightarrow> Inl (f, s)
         | Inr aligned \<Rightarrow>
             let offset = aligned - mem a
             in if offset + sz \<le> cap a then
                  let ptr = mem a + offset;
                      s1 = s\<lparr>ar := a\<lparr>prev_offset := offset, curr_offset := offset + sz\<rparr>\<rparr>
                  in (case memset s1 ptr 0 sz of
                        Inl e \<Rightarrow> Inl e
                      | Inr s2 \<Rightarrow> Inr (ptr, s2))
                else Inr (NULL, s\<lparr>errno := ENOMEM\<rparr>))"

definition arena_aligned_realloc ::
  "machine \<Rightarrow> size_t \<Rightarrow> uintptr_t \<Rightarrow> size_t \<Rightarrow> size_t \<Rightarrow> uintptr_t result" where
  "arena_aligned_realloc s alignment old old_size new_size =
     (let a = ar s
      in if \<not> pow_2 alignment then Inl (AssertionFailed, s)
         else if old = NULL \<or> old_size = 0 then arena_aligned_alloc s alignment new_size
         else if mem a \<le> old \<and> old < mem a + cap a then
           if mem a + prev_offset a = old then
             let s1 = s\<lparr>ar := a\<lparr>curr_offset := prev_offset a + new_size\<rparr>\<rparr>
             in if new_size > old_size then
                  (case memset s1 (mem a + curr_offset (ar s1)) 0 (new_size - old_size) of
                     Inl e \<Rightarrow> Inl e
                   | Inr s2 \<Rightarrow> Inr (old, s2))
                else Inr (old, s1)
           else
             (case arena_aligned_alloc s alignment new_size of
                Inl e \<Rightarrow> Inl e
              | Inr (new_mem, s1) \<Rightarrow>
                  let copy_size = (if old_size < new_size then old_size else new_size)
                  in (case memmove s1 new_mem old copy_size of
                        Inl e \<Rightarrow> Inl e
                      | Inr s2 \<Rightarrow> Inr (new_mem, s2)))
         else Inr (NULL, s\<lparr>errno := ENOMEM\<rparr>))"

definition arena_init :: "machine \<Rightarrow> uintptr_t \<Rightarrow> size_t \<Rightarrow> machine" where
  "arena_init s m c = s\<lparr>ar := \<lparr>mem = m, cap = c, curr_offset = 0, prev_offset = 0\<rparr>\<rparr>"

definition arena_deinit :: "machine \<Rightarrow> (fault \<times> machine) + machine" where
  "arena_deinit s =
     (case memset s (mem (ar s)) 0 (curr_offset (ar s)) of
        Inl e \<Rightarrow> Inl e
      | Inr s1 \<Rightarrow> Inr (s1\<lparr>ar := \<lparr>mem = NULL, cap = 0, curr_offset = 0, prev_offset = 0\<rparr>\<rparr>))"

definition arena_alloc :: "machine \<Rightarrow> size_t \<Rightarrow> uintptr_t result" where
  "arena_alloc s sz = arena_aligned_alloc s ARENA_DEFAULT_ALIGNMENT sz"

definition arena_realloc :: "machine \<Rightarrow> uintptr_t \<Rightarrow> size_t \<Rightarrow> size_t \<Rightarrow> uintptr_t result" where
  "arena_realloc s old_memory old_size new_size =
     arena_aligned_realloc s ARENA_DEFAULT_ALIGNMENT old_memory old_size new_size"

definition arena_memdup :: "machine \<Rightarrow> byte list \<Rightarrow> size_t \<Rightarrow> uintptr_t result" where
  "arena_memdup s src sz =
     (case arena_alloc s sz of
        Inl e \<Rightarrow> Inl e
      | Inr (dup, s1) \<Rightarrow>
          if dup \<noteq> NULL then
            (case memcpy s1 dup src sz of
               Inl e \<Rightarrow> Inl e
             | Inr s2 \<Rightarrow> Inr (dup, s2))
          else Inr (dup, s1))"

definition arena_strdup :: "machine \<Rightarrow> byte list \<Rightarrow> uintptr_t result" where
  "arena_strdup s src =
     (case strlen src of
        Inl f \<Rightarrow> Inl (f, s)
      | Inr l \<Rightarrow>
          let len = l + 1
          in (case arena_alloc s len of
                Inl e \<Rightarrow> Inl e
              | Inr (dup, s1) \<Rightarrow>
                  if dup \<noteq> NULL then
                    (case memcpy s1 dup src len of
                       Inl e \<Rightarrow> Inl e
                     | Inr s2 \<Rightarrow>
                         (case store_byte s2 (dup + len) 0 of
                            Inl e \<Rightarrow> Inl e
                          | Inr s3 \<Rightarrow> Inr (dup, s3)))
                  else Inr (dup, s1)))"

definition arena_strndup :: "machine \<Rightarrow> byte list \<Rightarrow> size_t \<Rightarrow> uintptr_t result" where
  "arena_strndup s src sz =
     (case strnlen src sz of
        Inl f \<Rightarrow> Inl (f, s)
      | Inr len \<Rightarrow>
          (case arena_alloc s (len + 1) of
             Inl e \<Rightarrow> Inl e
           | Inr (dup, s1) \<Rightarrow>
               if dup \<noteq> NULL then
                 (case memcpy s1 dup src len of
                    Inl e \<Rightarrow> Inl e
                  | Inr s2 \<Rightarrow>
                      (case store_byte s2 (dup + len) 0 of
                         Inl e \<Rightarrow> Inl e
                       | Inr s3 \<Rightarrow> Inr (dup, s3)))
               else Inr (dup, s1)))"

definition arena_reset :: "machine \<Rightarrow> machine" where
  "arena_reset s = s\<lparr>ar := (ar s)\<lparr>curr_offset := 0, prev_offset := 0\<rparr>\<rparr>"

definition arena_zero :: "machine \<Rightarrow> (fault \<times> machine) + machine" where
  "arena_zero s =
     (case memset s (mem (ar s)) 0 (curr_offset (ar s)) of
        Inl e \<Rightarrow> Inl e
      | Inr s1 \<Rightarrow> Inr (arena_reset s1))"

section \<open>Callers and observations\<close>

text \<open>
  The caller hands \<^verbatim>\<open>arena_init\<close> a block that is valid for \<^verbatim>\<open>cap\<close> bytes, so the
  block does not run past the end of the address space.
\<close>

definition block_ok :: "arena \<Rightarrow> bool" where
  "block_ok a \<longleftrightarrow> unat (mem a) + unat (cap a) \<le> 2 ^ 64"

text \<open>A caller that makes a series of allocations, each of which returns a pointer.\<close>

fun allocs :: "machine \<Rightarrow> (size_t \<times> size_t) list \<Rightarrow> machine option" where
  "allocs s [] = Some s"
| "allocs s ((alignment, sz) # reqs) =
     (case arena_aligned_alloc s alignment sz of
        Inl e \<Rightarrow> None
      | Inr (p, s1) \<Rightarrow> if p \<noteq> NULL then allocs s1 reqs else None)"

text \<open>
  What a call left behind: the value it returned, the fault it ran into, and the state
  at its end (for a fault, the state at the faulting access).
\<close>

definition returned :: "'a result \<Rightarrow> 'a option" where
  "returned r = (case r of Inl e \<Rightarrow> None | Inr (x, s) \<Rightarrow> Some x)"

definition faulted :: "'a result \<Rightarrow> fault option" where
  "faulted r = (case r of Inl (f, s) \<Rightarrow> Some f | Inr v \<Rightarrow> None)"

definition final :: "'a result \<Rightarrow> machine" where
  "final r = (case r of Inl (f, s) \<Rightarrow> s | Inr (x, s) \<Rightarrow> s)"

text \<open>
  A machine whose memory holds residue (every byte \<open>0xFF\<close>) and whose arena structure
  is not yet initialised.
\<close>

definition dirty :: machine where
  "dirty = \<lparr>ar = \<lparr>mem = NULL, cap = 0, curr_offset = 0, prev_offset = 0\<rparr>,
            heap = (\<lambda>x. 0xFF), errno = 0\<rparr>"

text \<open>The invariant the data model states for the two offsets.\<close>

definition arena_inv :: "arena \<Rightarrow> bool" where
  "arena_inv a \<longleftrightarrow> prev_offset a \<le> curr_offset a \<and> curr_offset a \<le> cap a"

section \<open>Power-of-two test\<close>

lemma pow_2_exp: "pow_2 (2 ^ n)"
proof -
  have "(2 ^ n :: 64 word) AND mask n = 0"
    by (simp add: take_bit_eq_mask [symmetric] take_bit_eq_0_iff)
  then show ?thesis
    by (simp add: pow_2_def mask_eq_exp_minus_1)
qed

lemma and_pred_nat:
  fixes x :: nat
  shows "0 < x \<Longrightarrow> x AND (x - 1) = 0 \<Longrightarrow> \<exists>n. x = 2 ^ n"
proof (induction x rule: less_induct)
  case (less x)
  show ?case
  proof (cases "even x")
    case True
    then obtain y where y: "x = 2 * y" by (elim evenE)
    with less.prems have y0: "0 < y" by simp
    have "(x - 1) div 2 = y - 1" using y y0 by simp
    then have "x AND (x - 1) = 2 * (y AND (y - 1))"
      using y by (subst and_nat_rec) simp
    with less.prems have "y AND (y - 1) = 0" by simp
    with less.IH [of y] y y0 obtain n where "y = 2 ^ n" by auto
    with y have "x = 2 ^ Suc n" by simp
    then show ?thesis by blast
  next
    case False
    then obtain y where y: "x = 2 * y + 1" by (elim oddE)
    have "x AND (x - 1) = 2 * y"
      using y by (subst and_nat_rec) simp
    with less.prems y have "x = 2 ^ 0" by simp
    then show ?thesis by blast
  qed
qed

lemma pow_2_iff: "pow_2 v \<longleftrightarrow> v = 0 \<or> (\<exists>n<64. v = 2 ^ n)"
proof
  assume p: "pow_2 v"
  show "v = 0 \<or> (\<exists>n<64. v = 2 ^ n)"
  proof (cases "v = 0")
    case False
    then have pos: "0 < unat v" by (simp add: unat_gt_0)
    have "unat (v AND (v - 1)) = unat v AND (unat v - 1)"
      using False by (simp add: unsigned_and_eq unat_minus_one)
    with p have "unat v AND (unat v - 1) = 0" by (simp add: pow_2_def)
    with and_pred_nat [OF pos] obtain n where n: "unat v = 2 ^ n" by blast
    have "(2::nat) ^ n < 2 ^ LENGTH(64)" using unsigned_less [of v] n by metis
    then have "n < 64" by (simp only: power_strict_increasing_iff) simp
    moreover have "word_of_nat (unat v) = v" by simp
    with n have "v = 2 ^ n" by simp
    ultimately show ?thesis by blast
  qed simp
next
  assume "v = 0 \<or> (\<exists>n<64. v = 2 ^ n)"
  then show "pow_2 v" using pow_2_exp by (auto simp: pow_2_def)
qed

text \<open>Apart from 0, the values \<^verbatim>\<open>pow_2\<close> accepts are those with exactly one set bit.\<close>

lemma bit_exp64: "n < 64 \<Longrightarrow> bit (2 ^ n :: 64 word) m \<longleftrightarrow> m = n"
  by (auto simp: bit_exp_iff)

lemma pow_2_one_bit: "pow_2 v \<longleftrightarrow> v = 0 \<or> (\<exists>n. \<forall>m. bit v m \<longleftrightarrow> m = n)"
proof -
  have "(\<exists>n<64. v = 2 ^ n) \<longleftrightarrow> (\<exists>n. \<forall>m. bit v m \<longleftrightarrow> m = n)"
  proof
    assume "\<exists>n<64. v = 2 ^ n"
    then show "\<exists>n. \<forall>m. bit v m \<longleftrightarrow> m = n" by (auto simp: bit_exp64)
  next
    assume "\<exists>n. \<forall>m. bit v m \<longleftrightarrow> m = n"
    then obtain n where n: "\<And>m. bit v m \<longleftrightarrow> m = n" by blast
    then have "bit v n" by simp
    then have "n < 64" by (auto dest: bit_imp_le_length)
    moreover have "v = 2 ^ n"
      using n \<open>n < 64\<close> by (intro bit_eqI) (simp add: bit_exp64)
    ultimately show "\<exists>n<64. v = 2 ^ n" by blast
  qed
  then show ?thesis by (simp add: pow_2_iff)
qed

text \<open>
  C10: \<^verbatim>\<open>pow_2\<close> is documented to report whether its argument is a power of two,
  that is, has exactly one set bit. At 0, which has no set bit, it answers true.
\<close>

theorem pow_2_zero: "pow_2 0 \<and> \<not> (\<exists>n. bit (0 :: uintptr_t) n)"
  by (simp add: pow_2_def)

section \<open>Forward alignment\<close>

lemma unat_take_bit64: "unat (take_bit n (a::64 word)) = unat a mod 2 ^ n"
  unfolding unsigned_take_bit_eq by (rule take_bit_eq_mod)

lemma unat_exp64:
  assumes "n < 64"
  shows "unat (2 ^ n :: 64 word) = 2 ^ n"
proof -
  have "(2::nat) ^ n < 2 ^ LENGTH(64)"
    using assms by (simp only: power_strict_increasing_iff) simp
  moreover have "unat (word_of_nat (2 ^ n) :: 64 word) = 2 ^ n mod 2 ^ LENGTH(64)"
    by (rule unat_of_nat)
  ultimately show ?thesis by simp
qed

lemma unat_pad:
  fixes a :: "64 word"
  assumes "n < 64"
  shows "unat (2 ^ n - take_bit n a) = 2 ^ n - unat a mod 2 ^ n"
proof -
  have "unat (take_bit n a) < 2 ^ n" by (simp add: unat_take_bit64)
  then have "take_bit n a \<le> 2 ^ n" using assms
    by (simp add: word_le_nat_alt unat_exp64)
  then show ?thesis using assms by (simp add: unat_sub unat_exp64 unat_take_bit64)
qed

lemma take_bit_pos:
  fixes a :: "64 word"
  assumes "take_bit n a \<noteq> 0"
  shows "0 < unat a mod 2 ^ n"
proof -
  from assms have "unat (take_bit n a) \<noteq> 0" by (simp add: unsigned_eq_0_iff)
  then show ?thesis by (simp add: unat_take_bit64)
qed

lemma pad_less:
  fixes a :: "64 word"
  assumes "n < 64" "take_bit n a \<noteq> 0"
  shows "2 ^ n - take_bit n a < 2 ^ n"
proof -
  from assms(2) have "unat (take_bit n a) \<noteq> 0" by (simp add: unsigned_eq_0_iff)
  then have "0 < unat a mod 2 ^ n" by (simp add: unat_take_bit64)
  then show ?thesis using assms(1) by (simp add: word_less_nat_alt unat_pad unat_exp64)
qed

lemma take_bit_aligned:
  fixes a :: "64 word"
  shows "take_bit n (a + (2 ^ n - take_bit n a)) = 0"
proof -
  have "a + (2 ^ n - take_bit n a) = 2 ^ n * (drop_bit n a + 1)"
    using bits_ident [of n a] 
  by (metis (no_types, lifting) add_diff_cancel_right' diff_add_eq
    distrib_left group_cancel.sub1 mult.commute mult_numeral_1_right
    numeral_One push_bit_eq_mult)
  then show ?thesis
    by (simp add: take_bit_eq_0_iff)
qed

lemma round_up_le:
  fixes x :: nat
  assumes "x < 2 ^ 64" "n < 64"
  shows "x + (2 ^ n - x mod 2 ^ n) \<le> 2 ^ 64"
proof -
  have split: "(2::nat) ^ 64 = 2 ^ (64 - n) * 2 ^ n"
    using assms(2) by (simp only: power_add [symmetric]) simp
  have "x mod 2 ^ n < 2 ^ n" by simp
  then have "x + (2 ^ n - x mod 2 ^ n) = x div 2 ^ n * 2 ^ n + x mod 2 ^ n + (2 ^ n - x mod 2 ^ n)"
    by (simp only: div_mult_mod_eq)
  also have "\<dots> = x div 2 ^ n * 2 ^ n + 2 ^ n"
    using \<open>x mod 2 ^ n < 2 ^ n\<close> by arith
  also have "\<dots> = (x div 2 ^ n + 1) * 2 ^ n"
    by simp
  finally have eq: "x + (2 ^ n - x mod 2 ^ n) = (x div 2 ^ n + 1) * 2 ^ n" .
  have "x div 2 ^ n < 2 ^ (64 - n)"
    using assms(1) unfolding split by (rule less_mult_imp_div_less)
  then have "x div 2 ^ n + 1 \<le> 2 ^ (64 - n)" by simp
  then have "(x div 2 ^ n + 1) * 2 ^ n \<le> 2 ^ (64 - n) * 2 ^ n"
    by (rule mult_le_mono1)
  with eq split show ?thesis by simp
qed

lemma align_forward_exp:
  "align_forward a (2 ^ n) = Inr (if take_bit n a \<noteq> 0 then a + (2 ^ n - take_bit n a) else a)"
  by (simp add: align_forward_def pow_2_def Let_def mask_eq_exp_minus_1 [symmetric] take_bit_eq_mask [symmetric] take_bit_eq_0_iff)

lemma align_forward_zero: "align_forward a 0 = Inr 0"
  by (simp add: align_forward_def pow_2_def Let_def)

lemma align_forward_nat:
  assumes n: "n < 64" and r: "align_forward a (2 ^ n) = Inr r"
  shows "r \<noteq> 0 \<Longrightarrow> unat a \<le> unat r" 
    and "unat a + 2 ^ n \<le> 2 ^ 64 \<Longrightarrow> unat a \<le> unat r"
    and "unat r < unat a \<Longrightarrow> r = 0"
    and "unat (r - a) < 2 ^ n"
    and "unat r mod 2 ^ n = 0"
proof -
  have a64: "unat a < 2 ^ 64" using unsigned_less [of a] by simp
  show "unat (r - a) < 2 ^ n"
  proof (cases "take_bit n a = 0")
    case True
    with r show ?thesis by (simp add: align_forward_exp)
  next
    case False
    then have "0 < unat a mod 2 ^ n" by (rule take_bit_pos)
    with False r n show ?thesis by (auto simp add: align_forward_exp unat_pad)
  qed
  have "take_bit n r = 0"
    using r take_bit_aligned [of n a] by (auto simp add: align_forward_exp split: if_splits)
  then show "unat r mod 2 ^ n = 0"
    using unat_take_bit64 [of n r] by simp
  have wrap: "unat a \<le> unat r \<or> (r = 0 \<and> 2 ^ 64 < unat a + 2 ^ n)"
  proof (cases "take_bit n a = 0")
    case True
    with r show ?thesis by (simp add: align_forward_exp)
  next
    case False
    then have pos: "0 < unat a mod 2 ^ n" by (rule take_bit_pos)
    from False r have req: "r = a + (2 ^ n - take_bit n a)"
      by (simp add: align_forward_exp)
    have le: "unat a + (2 ^ n - unat a mod 2 ^ n) \<le> 2 ^ 64"
      using a64 n by (rule round_up_le)
    show ?thesis
    proof (cases "unat a + (2 ^ n - unat a mod 2 ^ n) < 2 ^ 64")
      case True
      then have "unat r = unat a + (2 ^ n - unat a mod 2 ^ n)"
        using n by (simp add: req unat_plus_if' unat_pad)
      then have "unat a \<le> unat r" by linarith
      then show ?thesis by blast
    next
      case False
      with le have eq: "unat a + (2 ^ n - unat a mod 2 ^ n) = 2 ^ 64" by simp
      then have "unat r = 0"
        using n by (simp add: req unat_plus_if' unat_pad)
      then have "r = 0" by (simp add: unsigned_eq_0_iff)
      moreover have "unat a mod 2 ^ n < 2 ^ n" by simp
      with eq pos have "2 ^ 64 < unat a + 2 ^ n" by linarith
      ultimately show ?thesis by blast
    qed
  qed
  then show "r \<noteq> 0 \<Longrightarrow> unat a \<le> unat r" by blast
  from wrap show "unat a + 2 ^ n \<le> 2 ^ 64 \<Longrightarrow> unat a \<le> unat r" by auto
  from wrap show "unat r < unat a \<Longrightarrow> r = 0" by auto
qed

lemma align_forward_le_iff:
  assumes n: "n < 64" and r: "align_forward a (2 ^ n) = Inr r"
  shows "a \<le> r \<longleftrightarrow> unat a + 2 ^ n \<le> 2 ^ 64"
proof
  assume "unat a + 2 ^ n \<le> 2 ^ 64"
  then show "a \<le> r"
    using align_forward_nat(2) [OF n r] by (simp add: word_le_nat_alt)
next
  assume le: "a \<le> r"
  have a64: "unat a < 2 ^ 64" and r64: "unat r < 2 ^ 64"
    using unsigned_less [of a] unsigned_less [of r] by simp_all
  have "unat r + (2 ^ n - unat r mod 2 ^ n) \<le> 2 ^ 64"
    using r64 n by (rule round_up_le)
  then have room: "unat r + 2 ^ n \<le> 2 ^ 64"
    using align_forward_nat(5) [OF n r] by simp
  show "unat a + 2 ^ n \<le> 2 ^ 64"
  proof (cases "take_bit n a = 0")
    case True
    with r have "r = a" by (simp add: align_forward_exp)
    with room show ?thesis by simp
  next
    case False
    from le have "unat a \<le> unat r" by (simp add: word_le_nat_alt)
    moreover have "unat (r - a) = unat r - unat a" using le by (rule unat_sub)
    moreover have "unat (r - a) < 2 ^ n" by (rule align_forward_nat(4) [OF n r])
    ultimately show ?thesis using room by linarith
  qed
qed

text \<open>
  C5, as the code has it: for every address \<open>a\<close> and every power-of-two alignment
  \<open>k\<close>, \<^verbatim>\<open>align_forward(a, k)\<close> is a multiple of \<open>k\<close> and lies less than \<open>k\<close> after
  \<open>a\<close> in 64-bit arithmetic; it is at or after \<open>a\<close> exactly when \<open>a + k\<close> does not
  exceed \<open>2 ^ 64\<close>, that is, when the next multiple of \<open>k\<close> is an address at all.
\<close>

theorem align_forward_correct:
  assumes "n < 64" and "k = 2 ^ n"
  shows "\<exists>r. align_forward a k = Inr r \<and> r mod k = 0 \<and> r - a < k \<and>
             (a \<le> r \<longleftrightarrow> unat a + unat k \<le> 2 ^ 64)"
proof -
  obtain r where r: "align_forward a (2 ^ n) = Inr r"
    by (simp add: align_forward_exp)
  have "take_bit n r = 0"
    using align_forward_nat(5) [OF assms(1) r] unat_take_bit64 [of n r]
    by (simp add: unsigned_eq_0_iff)
  then have "r mod 2 ^ n = 0" by (simp add: take_bit_eq_mod)
  moreover have "r - a < 2 ^ n"
    using align_forward_nat(4) [OF assms(1) r] assms(1)
    by (simp add: word_less_nat_alt unat_exp64)
  moreover have "a \<le> r \<longleftrightarrow> unat a + unat (2 ^ n :: 64 word) \<le> 2 ^ 64"
    using align_forward_le_iff [OF assms(1) r] assms(1) by (simp add: unat_exp64)
  ultimately show ?thesis using r assms(2) by simp
qed

theorem align_forward_correct_witness:
  "\<exists>r. align_forward 0x1001 16 = Inr r \<and> r mod 16 = 0 \<and> r - 0x1001 < 16 \<and> 0x1001 \<le> r"
  using align_forward_correct [of 4 16 "0x1001"] by simp

text \<open>
  C5 as stated fails at the top of the address space: the address after \<open>2 ^ 64 - 1\<close>
  aligned to 16 wraps around to 0, which is below it.
\<close>

theorem align_forward_wraps: "align_forward (- 1) 16 = Inr 0 \<and> \<not> ((- 1 :: 64 word) \<le> 0)"
  by (simp add: align_forward_def pow_2_def Let_def)

section \<open>Allocation\<close>

text \<open>
  \<^verbatim>\<open>arena_aligned_alloc\<close> once the alignment has been computed, and what a returned
  pointer tells about the call.
\<close>

lemma alloc_unfold:
  assumes "align_forward (mem (ar s) + curr_offset (ar s)) al = Inr p"
  shows "arena_aligned_alloc s al sz =
     (if p - mem (ar s) + sz \<le> cap (ar s) then
        (case memset (s\<lparr>ar := (ar s)\<lparr>prev_offset := p - mem (ar s),
                                     curr_offset := p - mem (ar s) + sz\<rparr>\<rparr>) p 0 sz of
           Inl e \<Rightarrow> Inl e
         | Inr s2 \<Rightarrow> Inr (p, s2))
      else Inr (NULL, s\<lparr>errno := ENOMEM\<rparr>))"
  by (simp add: arena_aligned_alloc_def Let_def assms)

lemma alloc_success:
  assumes "arena_aligned_alloc s al sz = Inr (p, s')" and "p \<noteq> NULL"
  shows "align_forward (mem (ar s) + curr_offset (ar s)) al = Inr p"
    and "unat (p - mem (ar s)) + unat sz \<le> unat (cap (ar s))"
    and "ar s' = (ar s)\<lparr>prev_offset := p - mem (ar s), curr_offset := p - mem (ar s) + sz\<rparr>"
    and "heap s' = (\<lambda>x. if x - p < sz then 0 else heap s x)"
    and "errno s' = errno s"
proof -
  obtain q where q: "align_forward (mem (ar s) + curr_offset (ar s)) al = Inr q"
    using assms(1) by (cases "align_forward (mem (ar s) + curr_offset (ar s)) al")
      (simp_all add: arena_aligned_alloc_def Let_def)
  note u = alloc_unfold [OF q, of sz]
  from assms u have fits: "q - mem (ar s) + sz \<le> cap (ar s)"
    by (auto split: if_splits)
  define s1 where "s1 = s\<lparr>ar := (ar s)\<lparr>prev_offset := q - mem (ar s),
                                     curr_offset := q - mem (ar s) + sz\<rparr>\<rparr>"
  from assms u fits obtain s2 where m: "memset s1 q 0 sz = Inr s2" and pq: "p = q" and s2: "s' = s2"
    by (auto simp: s1_def split: sum.splits)
  show "align_forward (mem (ar s) + curr_offset (ar s)) al = Inr p" using q pq by simp
  show "unat (p - mem (ar s)) + unat sz \<le> unat (cap (ar s))"
  proof (cases "sz = 0")
    case True
    with fits pq show ?thesis by (simp add: word_le_nat_alt)
  next
    case False
    with m pq show ?thesis
      by (auto simp: memset_def in_block_def s1_def split: if_splits)
  qed
  show "ar s' = (ar s)\<lparr>prev_offset := p - mem (ar s), curr_offset := p - mem (ar s) + sz\<rparr>"
    using m pq s2 by (auto simp: memset_def s1_def split: if_splits)
  show "heap s' = (\<lambda>x. if x - p < sz then 0 else heap s x)"
    using m pq s2 by (auto simp: memset_def s1_def split: if_splits)
  show "errno s' = errno s"
    using m pq s2 by (auto simp: memset_def s1_def split: if_splits)
qed

lemma alloc_advances:
  assumes ok: "arena_aligned_alloc s al sz = Inr (p, s')" "p \<noteq> NULL"
    and blk: "block_ok (ar s)" and inv: "curr_offset (ar s) \<le> cap (ar s)"
  shows "unat (curr_offset (ar s)) \<le> unat (p - mem (ar s))"
proof -
  define A where "A = mem (ar s) + curr_offset (ar s)"
  have al: "align_forward A al = Inr p"
    using alloc_success(1) [OF ok] by (simp add: A_def)
  then have "pow_2 al" by (auto simp: align_forward_def split: if_splits)
  then consider "al = 0" | n where "n < 64" "al = 2 ^ n"
    by (auto simp: pow_2_iff)
  then obtain n where n: "n < 64" "al = 2 ^ n"
    using al ok(2) by cases (auto simp: align_forward_zero)
  have sum: "unat (mem (ar s)) + unat (curr_offset (ar s)) \<le> 2 ^ 64"
    using blk inv by (simp add: block_ok_def word_le_nat_alt)
  have "A \<noteq> 0"
    using al ok(2) n by (auto simp: align_forward_exp)
  have A: "unat A = unat (mem (ar s)) + unat (curr_offset (ar s))"
  proof (cases "unat (mem (ar s)) + unat (curr_offset (ar s)) < 2 ^ 64")
    case True
    then show ?thesis by (simp add: A_def unat_plus_if')
  next
    case False
    with sum have "unat A = 0" by (simp add: A_def unat_plus_if')
    with \<open>A \<noteq> 0\<close> show ?thesis by (simp add: unsigned_eq_0_iff)
  qed
  have "unat A \<le> unat p"
    using align_forward_nat(1) [OF n(1)] al n(2) ok(2) by simp
  with A have "unat (mem (ar s)) \<le> unat p" by simp
  then have "unat (p - mem (ar s)) = unat p - unat (mem (ar s))"
    by (simp add: unat_sub word_le_nat_alt)
  with A \<open>unat A \<le> unat p\<close> show ?thesis by simp
qed

lemma alloc_step:
  assumes ok: "arena_aligned_alloc s al sz = Inr (p, s')" "p \<noteq> NULL"
    and blk: "block_ok (ar s)" and inv: "curr_offset (ar s) \<le> cap (ar s)"
  shows "mem (ar s') = mem (ar s)" and "cap (ar s') = cap (ar s)"
    and "unat (curr_offset (ar s)) \<le> unat (prev_offset (ar s'))"
    and "unat (curr_offset (ar s')) = unat (prev_offset (ar s')) + unat sz"
    and "unat (curr_offset (ar s')) \<le> unat (cap (ar s'))"
    and "p = mem (ar s') + prev_offset (ar s')"
proof -
  note a = alloc_success(3) [OF ok]
  show "mem (ar s') = mem (ar s)" and "cap (ar s') = cap (ar s)"
    and "p = mem (ar s') + prev_offset (ar s')" by (simp_all add: a)
  show "unat (curr_offset (ar s)) \<le> unat (prev_offset (ar s'))"
    using alloc_advances [OF ok blk inv] by (simp add: a)
  have fit: "unat (p - mem (ar s)) + unat sz \<le> unat (cap (ar s))"
    by (rule alloc_success(2) [OF ok])
  moreover have "unat (cap (ar s)) < 2 ^ 64" using unsigned_less [of "cap (ar s)"] by simp
  ultimately show "unat (curr_offset (ar s')) = unat (prev_offset (ar s')) + unat sz"
    by (simp add: a unat_plus_if')
  with fit show "unat (curr_offset (ar s')) \<le> unat (cap (ar s'))" by (simp add: a)
qed

lemma allocs_inv:
  assumes "allocs s reqs = Some s'" and "block_ok (ar s)" and "curr_offset (ar s) \<le> cap (ar s)"
  shows "mem (ar s') = mem (ar s) \<and> cap (ar s') = cap (ar s) \<and>
         curr_offset (ar s') \<le> cap (ar s') \<and>
         unat (curr_offset (ar s)) \<le> unat (curr_offset (ar s')) \<and>
         (reqs \<noteq> [] \<longrightarrow> unat (curr_offset (ar s)) \<le> unat (prev_offset (ar s')) \<and>
            unat (prev_offset (ar s')) \<le> unat (curr_offset (ar s')))"
  using assms
proof (induction reqs arbitrary: s)
  case Nil
  then show ?case by simp
next
  case (Cons r reqs)
  obtain al sz where r: "r = (al, sz)" by (cases r)
  from Cons.prems(1) r obtain p s1 where
    ok: "arena_aligned_alloc s al sz = Inr (p, s1)" "p \<noteq> NULL" and rest: "allocs s1 reqs = Some s'"
    by (auto split: sum.splits if_splits)
  note st = alloc_step [OF ok Cons.prems(2,3)]
  have blk1: "block_ok (ar s1)" using Cons.prems(2) st(1,2) by (simp add: block_ok_def)
  have inv1: "curr_offset (ar s1) \<le> cap (ar s1)" using st(5) by (simp add: word_le_nat_alt)
  from Cons.IH [OF rest blk1 inv1] st rest show ?case
    by (cases "reqs = []") auto
qed

text \<open>
  As long as the aligned offset plus the size does not wrap around, the call succeeds
  exactly when that sum is at most the capacity, and a failure changes nothing but
  \<^verbatim>\<open>errno\<close>.
\<close>

lemma alloc_exact:
  assumes q: "align_forward (mem (ar s) + curr_offset (ar s)) al = Inr q" and "q \<noteq> NULL"
    and nowrap: "unat (q - mem (ar s)) + unat sz < 2 ^ 64"
  shows "arena_aligned_alloc s al sz =
     (if unat (q - mem (ar s)) + unat sz \<le> unat (cap (ar s)) then
        Inr (q, s\<lparr>ar := (ar s)\<lparr>prev_offset := q - mem (ar s),
                                 curr_offset := q - mem (ar s) + sz\<rparr>,
                  heap := (\<lambda>x. if x - q < sz then 0 else heap s x)\<rparr>)
      else Inr (NULL, s\<lparr>errno := ENOMEM\<rparr>))"
proof -
  have u: "unat (q - mem (ar s) + sz) = unat (q - mem (ar s)) + unat sz"
    using nowrap by (simp add: unat_plus_if')
  show ?thesis
  proof (cases "sz = 0")
    case True
    have "(\<lambda>x. if x - q < 0 then 0 else heap s x) = heap s" by (simp add: fun_eq_iff)
    with True show ?thesis
      by (simp add: alloc_unfold [OF q] memset_def word_le_nat_alt)
  next
    case False
    with assms(2) u show ?thesis
      by (simp add: alloc_unfold [OF q] memset_def in_block_def word_le_nat_alt cong: if_cong)
  qed
qed

text \<open>Every return of \<^verbatim>\<open>arena_aligned_alloc\<close> keeps the invariant of the offsets.\<close>

lemma memset_ar: "memset s p c n = Inr s' \<Longrightarrow> ar s' = ar s"
  by (auto simp: memset_def split: if_splits)

lemma memmove_ar: "memmove s d p n = Inr s' \<Longrightarrow> ar s' = ar s"
  by (auto simp: memmove_def split: if_splits)

lemma alloc_inv:
  assumes "arena_aligned_alloc s al sz = Inr (p, s')" and "arena_inv (ar s)"
  shows "arena_inv (ar s')"
proof (cases "p = NULL")
  case False
  note a = alloc_success(2,3) [OF assms(1) False]
  have "unat (cap (ar s)) < 2 ^ 64" using unsigned_less [of "cap (ar s)"] by simp
  with a(1) have "unat (p - mem (ar s) + sz) = unat (p - mem (ar s)) + unat sz"
    by (simp add: unat_plus_if')
  with a(1) show ?thesis by (simp add: a(2) arena_inv_def word_le_nat_alt)
next
  case True
  obtain q where q: "align_forward (mem (ar s) + curr_offset (ar s)) al = Inr q"
    using assms(1) by (cases "align_forward (mem (ar s) + curr_offset (ar s)) al")
      (simp_all add: arena_aligned_alloc_def Let_def)
  show ?thesis
  proof (cases "q - mem (ar s) + sz \<le> cap (ar s)")
    case fits: True
    with assms(1) True obtain s2 where
      m: "memset (s\<lparr>ar := (ar s)\<lparr>prev_offset := q - mem (ar s),
                curr_offset := q - mem (ar s) + sz\<rparr>\<rparr>) q 0 sz = Inr s2" and "q = p" "s' = s2"
      by (auto simp: alloc_unfold [OF q] split: sum.splits)
    with True have "sz = 0" by (auto simp: memset_def split: if_splits)
    with m fits \<open>s' = s2\<close> show ?thesis
      by (auto simp: memset_def arena_inv_def)
  next
    case False
    with assms show ?thesis by (auto simp: alloc_unfold [OF q] arena_inv_def)
  qed
qed

text \<open>The definitions a run of the code on a concrete machine unfolds.\<close>

lemmas run_defs = arena_init_def dirty_def arena_aligned_alloc_def arena_aligned_realloc_def
  arena_alloc_def arena_realloc_def ARENA_DEFAULT_ALIGNMENT_def
  align_forward_def pow_2_def memset_def memmove_def memcpy_def store_byte_def strlen_def
  in_block_def returned_def faulted_def final_def Let_def ENOMEM_def arena_strdup_def

text \<open>
  C6: whenever \<^verbatim>\<open>arena_aligned_alloc\<close> returns a pointer (not \<^verbatim>\<open>NULL\<close>), each of the
  \<open>sz\<close> bytes at that pointer reads as zero in the state it returns, whatever the memory
  held before.
\<close>

theorem alloc_zero_fill:
  assumes "arena_aligned_alloc s al sz = Inr (p, s')" and "p \<noteq> NULL"
  shows "\<forall>i < sz. heap s' (p + i) = 0"
  using alloc_success(4) [OF assms] by simp

text \<open>C6 on memory full of residue: the first and the last byte of an 8-byte span.\<close>

theorem alloc_zero_fill_witness:
  "heap (final (arena_aligned_alloc (arena_init dirty 0x1000 64) 16 8)) 0x1000 = 0 \<and>
   heap (final (arena_aligned_alloc (arena_init dirty 0x1000 64) 16 8)) 0x1007 = 0 \<and>
   heap (arena_init dirty 0x1000 64) 0x1007 = 0xFF"
proof -
  define s' where "s' = final (arena_aligned_alloc (arena_init dirty 0x1000 64) 16 8)"
  have "arena_aligned_alloc (arena_init dirty 0x1000 64) 16 8 = Inr (0x1000, s')"
    by (simp add: s'_def run_defs)
  then have z: "\<forall>i < 8. heap s' (0x1000 + i) = 0"
    by (rule alloc_zero_fill) simp
  have "heap s' (0x1000 + 0) = 0" and "heap s' (0x1000 + 7) = 0"
    using z [rule_format, of 0] z [rule_format, of 7] by simp_all
  then show ?thesis by (simp add: s'_def arena_init_def dirty_def)
qed

text \<open>
  C3: the capacity check \<^verbatim>\<open>offset+size <= a->cap\<close> is computed in 64-bit arithmetic.
  With 10 bytes in use in an arena of 64, a request for \<open>2 ^ 64 - 8\<close> bytes has the
  aligned offset 16 and the exact end \<open>2 ^ 64 + 8\<close>, far beyond the capacity, but the
  sum wraps around to 8: the request is not refused. The code records the new offsets
  and zero-fills \<open>2 ^ 64 - 8\<close> bytes, which runs out of the block.
\<close>

theorem alloc_accepts_wrapped_size:
  "(let r1 = arena_aligned_alloc (arena_init dirty 0x1000 64) 16 10;
        r2 = arena_aligned_alloc (final r1) 16 (- 8)
    in returned r1 = Some 0x1000 \<and> curr_offset (ar (final r1)) = 10 \<and>
       unat (16 :: size_t) + unat (- 8 :: size_t) > unat (cap (ar (final r1))) \<and>
       r2 \<noteq> Inr (NULL, (final r1)\<lparr>errno := ENOMEM\<rparr>) \<and>
       faulted r2 = Some OutOfBounds \<and>
       prev_offset (ar (final r2)) = 16 \<and> curr_offset (ar (final r2)) = 8)"
  by (simp add: run_defs)

text \<open>
  C4: the same wrap-around of the capacity check, at a request for \<open>2 ^ 64 - 16\<close>
  bytes: the aligned offset plus the size is not at most the capacity, yet the call does
  not fail with \<^verbatim>\<open>ENOMEM\<close> and a null pointer, and it does not leave the offsets alone:
  \<^verbatim>\<open>prev_offset\<close> goes from 0 to 16 and \<^verbatim>\<open>curr_offset\<close> from 10 to 0.
\<close>

theorem alloc_wrapped_not_atomic:
  "(let r1 = arena_aligned_alloc (arena_init dirty 0x1000 64) 16 10;
        r2 = arena_aligned_alloc (final r1) 16 (- 16)
    in prev_offset (ar (final r1)) = 0 \<and> curr_offset (ar (final r1)) = 10 \<and>
       unat (16 :: size_t) + unat (- 16 :: size_t) > unat (cap (ar (final r1))) \<and>
       returned r2 \<noteq> Some NULL \<and> errno (final r2) \<noteq> ENOMEM \<and>
       faulted r2 = Some OutOfBounds \<and>
       prev_offset (ar (final r2)) = 16 \<and> curr_offset (ar (final r2)) = 0)"
  by (simp add: run_defs)

section \<open>Initialisation, reset and teardown\<close>

lemma init_inv: "arena_inv (ar (arena_init s m c))"
  by (simp add: arena_inv_def arena_init_def)

lemma reset_inv: "arena_inv (ar (arena_reset s))"
  by (simp add: arena_inv_def arena_reset_def)

lemma zero_inv: "arena_zero s = Inr s' \<Longrightarrow> arena_inv (ar s')"
  by (auto simp: arena_zero_def arena_inv_def arena_reset_def split: sum.splits)

lemma deinit_inv: "arena_deinit s = Inr s' \<Longrightarrow> arena_inv (ar s')"
  by (auto simp: arena_deinit_def arena_inv_def split: sum.splits)

section \<open>Reallocation\<close>

text \<open>
  The in-place path: the pointer stays, \<^verbatim>\<open>curr_offset\<close> becomes
  \<^verbatim>\<open>prev_offset + new_size\<close>, and on growth the bytes zeroed are the
  \<^verbatim>\<open>new_size - old_size\<close> bytes that start at the new end. When the new end is within
  the capacity, no byte of the resized block changes: the newly exposed tail keeps
  whatever the memory held.
\<close>

lemma realloc_in_place:
  assumes re: "arena_aligned_realloc s al old N M = Inr (p, s')" and "p \<noteq> NULL"
    and old: "old \<noteq> NULL" "N \<noteq> 0" "mem (ar s) + prev_offset (ar s) = old"
  shows "p = old"
    and "ar s' = (ar s)\<lparr>curr_offset := prev_offset (ar s) + M\<rparr>"
    and "heap s' = (\<lambda>x. if N < M \<and> x - (old + M) < M - N then 0 else heap s x)"
    and "N < M \<Longrightarrow> unat (prev_offset (ar s) + M) + unat (M - N) \<le> unat (cap (ar s))"
proof -
  from re have pw: "pow_2 al"
    by (cases "pow_2 al") (simp_all add: arena_aligned_realloc_def Let_def)
  have rng: "mem (ar s) \<le> old \<and> old < mem (ar s) + cap (ar s)"
    using re pw old assms(2) by (auto simp: arena_aligned_realloc_def Let_def split: if_splits)
  define s1 where "s1 = s\<lparr>ar := (ar s)\<lparr>curr_offset := prev_offset (ar s) + M\<rparr>\<rparr>"
  show "p = old"
    using re pw old rng by (auto simp: arena_aligned_realloc_def Let_def split: if_splits sum.splits)
  show "ar s' = (ar s)\<lparr>curr_offset := prev_offset (ar s) + M\<rparr>"
    using re pw old rng
    by (auto simp: arena_aligned_realloc_def Let_def memset_def split: if_splits sum.splits)
  show "heap s' = (\<lambda>x. if N < M \<and> x - (old + M) < M - N then 0 else heap s x)"
    using re pw old rng
    by (auto simp: arena_aligned_realloc_def Let_def memset_def fun_eq_iff add.assoc
        split: if_splits sum.splits)
  show "unat (prev_offset (ar s) + M) + unat (M - N) \<le> unat (cap (ar s))" if "N < M"
    using re pw old rng that
    by (auto simp: arena_aligned_realloc_def Let_def memset_def in_block_def add.assoc
        split: if_splits sum.splits)
qed

lemma realloc_in_place_bytes:
  assumes re: "arena_aligned_realloc s al old N M = Inr (p, s')" and "p \<noteq> NULL"
    and old: "old \<noteq> NULL" "N \<noteq> 0" "mem (ar s) + prev_offset (ar s) = old"
    and fits: "unat (prev_offset (ar s)) + unat M \<le> unat (cap (ar s))"
  shows "\<forall>i < M. heap s' (old + i) = heap s (old + i)"
proof (intro allI impI)
  fix i assume i: "i < M"
  note r = realloc_in_place [OF re assms(2) old]
  show "heap s' (old + i) = heap s (old + i)"
  proof (cases "N < M")
    case False
    then show ?thesis by (simp add: r(3))
  next
    case True
    have c64: "unat (cap (ar s)) < 2 ^ 64" using unsigned_less [of "cap (ar s)"] by simp
    have u: "unat (prev_offset (ar s) + M) = unat (prev_offset (ar s)) + unat M"
      using fits c64 by (simp add: unat_plus_if')
    have blk: "unat (prev_offset (ar s) + M) + unat (M - N) \<le> unat (cap (ar s))"
      by (rule r(4) [OF True])
    have e: "old + i - (old + M) = i - M" by simp
    have "unat (i - M) = unat i + 2 ^ 64 - unat M"
      using i by (simp add: unat_sub_if_size word_size word_less_nat_alt)
    with u blk c64 have "\<not> (i - M < M - N)"
      unfolding word_less_nat_alt by linarith
    then show ?thesis by (simp add: r(3) e)
  qed
qed

text \<open>
  A reallocation that returns keeps the invariant of the offsets, provided an in-place
  resize stays within the capacity (nothing in the code checks that).
\<close>

lemma realloc_inv:
  assumes re: "arena_aligned_realloc s al old N M = Inr (p, s')" and inv: "arena_inv (ar s)"
    and fits: "mem (ar s) + prev_offset (ar s) = old \<Longrightarrow>
               unat (prev_offset (ar s)) + unat M \<le> unat (cap (ar s))"
  shows "arena_inv (ar s')"
proof -
  from re have pw: "pow_2 al"
    by (cases "pow_2 al") (simp_all add: arena_aligned_realloc_def Let_def)
  consider (delegate) "old = NULL \<or> N = 0"
    | (foreign) "old \<noteq> NULL" "N \<noteq> 0" "\<not> (mem (ar s) \<le> old \<and> old < mem (ar s) + cap (ar s))"
    | (in_place) "old \<noteq> NULL" "N \<noteq> 0" "mem (ar s) \<le> old \<and> old < mem (ar s) + cap (ar s)"
        "mem (ar s) + prev_offset (ar s) = old"
    | (relocate) "old \<noteq> NULL" "N \<noteq> 0" "mem (ar s) \<le> old \<and> old < mem (ar s) + cap (ar s)"
        "mem (ar s) + prev_offset (ar s) \<noteq> old"
    by blast
  then show ?thesis
  proof cases
    case delegate
    with re pw have "arena_aligned_alloc s al M = Inr (p, s')"
      by (simp add: arena_aligned_realloc_def Let_def)
    then show ?thesis using inv by (rule alloc_inv)
  next
    case foreign
    with re pw inv show ?thesis
      by (auto simp: arena_aligned_realloc_def Let_def arena_inv_def)
  next
    case in_place
    have "unat (cap (ar s)) < 2 ^ 64" using unsigned_less [of "cap (ar s)"] by simp
    with fits [OF in_place(4)]
    have u: "unat (prev_offset (ar s) + M) = unat (prev_offset (ar s)) + unat M"
      by (simp add: unat_plus_if')
    from re pw in_place have "ar s' = (ar s)\<lparr>curr_offset := prev_offset (ar s) + M\<rparr>"
      by (auto simp: arena_aligned_realloc_def Let_def split: if_splits sum.splits dest: memset_ar)
    with u fits [OF in_place(4)] show ?thesis
      by (simp add: arena_inv_def word_le_nat_alt)
  next
    case relocate
    with re pw obtain q t where a: "arena_aligned_alloc s al M = Inr (q, t)"
      and m: "memmove t q old (if N < M then N else M) = Inr s'"
      by (auto simp: arena_aligned_realloc_def Let_def split: if_splits sum.splits)
    from a inv have "arena_inv (ar t)" by (rule alloc_inv)
    with memmove_ar [OF m] show ?thesis by simp
  qed
qed

text \<open>
  C1: growing the most recent allocation in place. The code first moves
  \<^verbatim>\<open>curr_offset\<close> to the new end and then zero-fills \<^verbatim>\<open>new_size - old_size\<close> bytes
  starting at \<^verbatim>\<open>curr_offset\<close>: the bytes beyond the new end, not the newly exposed
  tail. After \<^verbatim>\<open>allocate(8)\<close> and \<^verbatim>\<open>reallocate(P, 8, 12)\<close> on memory full of residue, the
  pointer is unchanged and \<^verbatim>\<open>curr_offset\<close> is 12, but bytes 8 to 11 of \<open>P\<close> still hold
  the residue; bytes 12 to 15 were zeroed instead.
\<close>

theorem realloc_tail_not_zeroed:
  "(let r1 = arena_aligned_alloc (arena_init dirty 0x1000 64) 16 8;
        r2 = arena_aligned_realloc (final r1) 16 0x1000 8 12
    in returned r1 = Some 0x1000 \<and> returned r2 = Some 0x1000 \<and>
       curr_offset (ar (final r2)) = 12 \<and>
       heap (final r2) 0x1008 = 0xFF \<and> heap (final r2) 0x100B = 0xFF \<and>
       heap (final r2) 0x100C = 0 \<and> heap (final r2) 0x100F = 0)"
  by (simp add: run_defs)

text \<open>
  C2: the in-place path of \<^verbatim>\<open>arena_aligned_realloc\<close> sets
  \<^verbatim>\<open>curr_offset = prev_offset + new_size\<close> with no check against the capacity. In an
  arena of 16 bytes, \<^verbatim>\<open>allocate(8)\<close> followed by \<^verbatim>\<open>reallocate(P, 8, 100)\<close> leaves
  \<^verbatim>\<open>curr_offset = 100\<close>, above the capacity, and the zero-fill that follows runs out of
  the block.
\<close>

theorem realloc_breaks_invariant:
  "(let r1 = arena_aligned_alloc (arena_init dirty 0x1000 16) 16 8;
        r2 = arena_aligned_realloc (final r1) 16 0x1000 8 100
    in returned r1 = Some 0x1000 \<and> faulted r2 = Some OutOfBounds \<and>
       cap (ar (final r2)) = 16 \<and> curr_offset (ar (final r2)) = 100 \<and>
       arena_inv (ar (final r1)) \<and> \<not> arena_inv (ar (final r2)))"
  by (simp add: run_defs arena_inv_def)

text \<open>
  The relocation path: a fresh allocation, then the copy of \<open>min old_size new_size\<close>
  bytes, whose outcome is the outcome of the call.
\<close>

lemma realloc_relocate_unfold:
  assumes "old \<noteq> NULL" "N \<noteq> 0"
    and "mem (ar s) \<le> old \<and> old < mem (ar s) + cap (ar s)"
    and "mem (ar s) + prev_offset (ar s) \<noteq> old"
    and "arena_aligned_alloc s al M = Inr (p', t)"
  shows "arena_aligned_realloc s al old N M =
     (case memmove t p' old (if N < M then N else M) of
        Inl e \<Rightarrow> Inl e
      | Inr s' \<Rightarrow> Inr (p', s'))"
proof -
  from assms(5) have "pow_2 al"
    by (cases "pow_2 al") (simp_all add: arena_aligned_alloc_def align_forward_def Let_def)
  with assms show ?thesis
    by (simp add: arena_aligned_realloc_def Let_def)
qed

text \<open>
  Allocations never change \<^verbatim>\<open>mem\<close> and \<^verbatim>\<open>cap\<close>, and a pointer that passes the range test
  of \<^verbatim>\<open>arena_aligned_realloc\<close> shows that the block does not wrap around the address
  space.
\<close>

lemma alloc_mem_cap:
  assumes "arena_aligned_alloc s al sz = Inr (p, s')"
  shows "mem (ar s') = mem (ar s)" and "cap (ar s') = cap (ar s)"
  using assms
  by (auto simp: arena_aligned_alloc_def Let_def memset_def split: sum.splits if_splits)

lemma allocs_mem_cap:
  "allocs s reqs = Some s' \<Longrightarrow> mem (ar s') = mem (ar s) \<and> cap (ar s') = cap (ar s)"
proof (induction reqs arbitrary: s)
  case Nil
  then show ?case by simp
next
  case (Cons r reqs)
  obtain al sz where r: "r = (al, sz)" by (cases r)
  from Cons.prems r obtain p s1 where
    ok: "arena_aligned_alloc s al sz = Inr (p, s1)" and rest: "allocs s1 reqs = Some s'"
    by (auto split: sum.splits if_splits)
  from Cons.IH [OF rest] alloc_mem_cap [OF ok] show ?case by simp
qed

lemma inside_block_ok:
  assumes "mem a \<le> p \<and> p < mem a + cap a"
  shows "block_ok a"
proof -
  from assms have "mem a < mem a + cap a" by auto
  then have "unat (mem a) < unat (mem a + cap a)" by (simp add: word_less_nat_alt)
  moreover have "unat (cap a) < 2 ^ 64" using unsigned_less [of "cap a"] by simp
  ultimately show ?thesis
    by (simp add: block_ok_def unat_plus_if' split: if_splits)
qed

text \<open>
  C7, as the code has it: a block \<open>P\<close> of \<open>N > 0\<close> bytes is allocated, one or more further
  allocations follow (the caller writing to memory as it likes in between), \<open>P\<close> is
  still inside the arena's range, and the allocation of \<open>M\<close> bytes that
  \<^verbatim>\<open>reallocate(P, N, M)\<close> makes returns a pointer \<open>P'\<close>. Then the call returns \<open>P'\<close>, without
  a fault, \<open>P'\<close> differs from \<open>P\<close>, and its first \<open>min N M\<close> bytes are those that \<open>P\<close> held
  when the call was made.
\<close>

theorem realloc_relocation:
  assumes first: "arena_aligned_alloc s0 al N = Inr (P, s1)" "P \<noteq> NULL" "N \<noteq> 0"
    and between: "allocs (s1\<lparr>heap := h1\<rparr>) reqs = Some s2" "reqs \<noteq> []"
    and inside: "mem (ar s2) \<le> P \<and> P < mem (ar s2) + cap (ar s2)"
    and inner: "arena_aligned_alloc (s2\<lparr>heap := h2\<rparr>) al' M = Inr (P', t)" "P' \<noteq> NULL"
  shows "\<exists>s3. arena_aligned_realloc (s2\<lparr>heap := h2\<rparr>) al' P N M = Inr (P', s3) \<and>
              P' \<noteq> P \<and> (\<forall>i < min N M. heap s3 (P' + i) = h2 (P + i))"
proof -
  define m c where "m = mem (ar s0)" and "c = cap (ar s0)"
  define o1 where "o1 = P - m"
  define k where "k = (if N < M then N else M)"
  have c64: "unat c < 2 ^ 64" using unsigned_less [of c] by simp
  have "mem (ar s2) = mem (ar s1) \<and> cap (ar s2) = cap (ar s1)"
    using allocs_mem_cap [OF between(1)] by simp
  with alloc_mem_cap [OF first(1)] inside have "mem (ar s0) \<le> P \<and> P < mem (ar s0) + cap (ar s0)"
    by simp
  then have blk: "block_ok (ar s0)" by (rule inside_block_ok)
  note a1 = alloc_success(2,3) [OF first(1,2)]
  have P: "P = m + o1" by (simp add: o1_def)
  have fit1: "unat o1 + unat N \<le> unat c" using a1(1) by (simp add: o1_def m_def c_def)
  have s1: "mem (ar s1) = m" "cap (ar s1) = c" "curr_offset (ar s1) = o1 + N"
    by (simp_all add: a1(2) m_def c_def o1_def)
  have curr1: "unat (o1 + N) = unat o1 + unat N"
    using fit1 c64 by (simp add: unat_plus_if')
  have blk1: "block_ok (ar (s1\<lparr>heap := h1\<rparr>))"
    using blk by (simp add: block_ok_def s1 m_def c_def)
  have inv1: "curr_offset (ar (s1\<lparr>heap := h1\<rparr>)) \<le> cap (ar (s1\<lparr>heap := h1\<rparr>))"
    using fit1 curr1 by (simp add: s1 word_le_nat_alt)
  from allocs_inv [OF between(1) blk1 inv1] between(2)
  have s2: "mem (ar s2) = m" "cap (ar s2) = c" "curr_offset (ar s2) \<le> c"
    and prev2: "unat o1 + unat N \<le> unat (prev_offset (ar s2))"
    and pc2: "unat (prev_offset (ar s2)) \<le> unat (curr_offset (ar s2))"
    by (auto simp: s1 curr1)
  have Npos: "0 < unat N" using first(3) by (simp add: unat_gt_0)
  have "prev_offset (ar s2) \<noteq> o1" using prev2 Npos by auto
  then have notlast: "mem (ar (s2\<lparr>heap := h2\<rparr>)) + prev_offset (ar (s2\<lparr>heap := h2\<rparr>)) \<noteq> P"
    by (simp add: s2 P)
  have inside': "mem (ar (s2\<lparr>heap := h2\<rparr>)) \<le> P \<and>
      P < mem (ar (s2\<lparr>heap := h2\<rparr>)) + cap (ar (s2\<lparr>heap := h2\<rparr>))"
    using inside by simp
  have re: "arena_aligned_realloc (s2\<lparr>heap := h2\<rparr>) al' P N M =
      (case memmove t P' P k of Inl e \<Rightarrow> Inl e | Inr s' \<Rightarrow> Inr (P', s'))"
    unfolding k_def by (rule realloc_relocate_unfold [OF first(2,3) inside' notlast inner(1)])
  have blk2: "block_ok (ar (s2\<lparr>heap := h2\<rparr>))"
    using blk by (simp add: block_ok_def s2 m_def c_def)
  have inv2: "curr_offset (ar (s2\<lparr>heap := h2\<rparr>)) \<le> cap (ar (s2\<lparr>heap := h2\<rparr>))"
    using s2 by simp
  define o2 where "o2 = prev_offset (ar t)"
  note st = alloc_step [OF inner blk2 inv2]
  have t: "mem (ar t) = m" "cap (ar t) = c" by (simp_all add: st(1,2) s2)
  have P': "P' = m + o2" using st(6) by (simp add: o2_def t)
  have fit2: "unat o2 + unat M \<le> unat c" using st(4,5) by (simp add: o2_def t)
  have above: "unat o1 + unat N \<le> unat o2"
    using prev2 st(3) pc2 by (simp add: o2_def)
  have "o2 \<noteq> o1" using above Npos by auto
  then have neq: "P' \<noteq> P" by (simp add: P P')
  have heap_t: "heap t = (\<lambda>x. if x - P' < M then 0 else h2 x)"
    using alloc_success(4) [OF inner] by (simp cong: if_cong)
  have kN: "unat k \<le> unat N" and kM: "unat k \<le> unat M"
    by (auto simp: k_def word_less_nat_alt)
  define s3 where "s3 = (if k = 0 then t
     else t\<lparr>heap := (\<lambda>x. if x - P' < k then heap t (P + (x - P')) else heap t x)\<rparr>)"
  have "in_block (ar t) P' k" and "in_block (ar t) P k"
    using kN kM fit1 fit2 by (simp_all add: in_block_def t P P')
  then have mv: "memmove t P' P k = Inr s3"
    using inner(2) first(2) by (simp add: memmove_def s3_def)
  have copy: "heap s3 (P' + i) = h2 (P + i)" if i: "i < N" "i < M" for i
  proof -
    have lt: "i < k" using i by (simp add: k_def)
    then have "k \<noteq> 0" by (auto simp: word_less_nat_alt)
    with lt have "heap s3 (P' + i) = heap t (P + i)" by (simp add: s3_def)
    moreover have "\<not> (P + i - P' < M)"
    proof -
      have e: "P + i - P' = o1 + i - o2" by (simp add: P P')
      have u1: "unat (o1 + i) = unat o1 + unat i"
        using i(1) fit1 c64 by (simp add: unat_plus_if' word_less_nat_alt)
      have "unat (o1 + i - o2) = unat (o1 + i) + 2 ^ 64 - unat o2"
        using above i(1) u1 by (simp add: unat_sub_if_size word_size word_less_nat_alt)
      with u1 fit2 c64 show ?thesis
        unfolding e word_less_nat_alt by linarith
    qed
    ultimately show ?thesis by (simp add: heap_t)
  qed
  from re mv neq copy show ?thesis by simp
qed

text \<open>
  C7 on a concrete arena: the caller writes \<open>0x41\<close> and \<open>0x42\<close> into the first block,
  one allocation intervenes, and the block is reallocated from 8 to 16 bytes.
\<close>

theorem realloc_relocation_witness:
  "(let s1 = final (arena_aligned_alloc (arena_init dirty 0x1000 64) 16 8);
        s2 = the (allocs (s1\<lparr>heap := (heap s1)(0x1000 := 0x41)\<rparr>) [(16, 8)]);
        r = arena_aligned_realloc (s2\<lparr>heap := (heap s2)(0x1001 := 0x42)\<rparr>) 16 0x1000 8 16
    in returned r = Some 0x1020 \<and> heap (final r) 0x1020 = 0x41 \<and> heap (final r) 0x1021 = 0x42 \<and>
       heap (final r) 0x1022 = 0)"
proof -
  define s0 where "s0 = arena_init dirty 0x1000 64"
  define s1 where "s1 = final (arena_aligned_alloc s0 16 8)"
  define h1 where "h1 = (heap s1)(0x1000 := 0x41)"
  define s2 where "s2 = the (allocs (s1\<lparr>heap := h1\<rparr>) [(16, 8)])"
  define h2 where "h2 = (heap s2)(0x1001 := 0x42)"
  define t where "t = final (arena_aligned_alloc (s2\<lparr>heap := h2\<rparr>) 16 16)"
  define r where "r = arena_aligned_realloc (s2\<lparr>heap := h2\<rparr>) 16 0x1000 8 16"
  have a1: "arena_aligned_alloc s0 16 8 = Inr (0x1000, s1)"
    by (simp add: s1_def s0_def run_defs)
  have a2: "allocs (s1\<lparr>heap := h1\<rparr>) [(16, 8)] = Some s2"
    by (simp add: s2_def h1_def s1_def s0_def run_defs)
  have ins: "mem (ar s2) \<le> 0x1000 \<and> 0x1000 < mem (ar s2) + cap (ar s2)"
    by (simp add: s2_def h1_def s1_def s0_def run_defs)
  have a3: "arena_aligned_alloc (s2\<lparr>heap := h2\<rparr>) 16 16 = Inr (0x1020, t)"
    by (simp add: t_def h2_def s2_def h1_def s1_def s0_def run_defs)
  have "\<exists>s3. arena_aligned_realloc (s2\<lparr>heap := h2\<rparr>) 16 0x1000 8 16 = Inr (0x1020, s3) \<and>
          0x1020 \<noteq> (0x1000 :: uintptr_t) \<and>
          (\<forall>i < min 8 16. heap s3 (0x1020 + i) = h2 (0x1000 + i))"
    by (rule realloc_relocation [OF a1 _ _ a2 _ ins a3]) simp_all
  then obtain s3 where r3: "r = Inr (0x1020, s3)"
    and c: "\<forall>i < 8. heap s3 (0x1020 + i) = h2 (0x1000 + i)"
    by (auto simp: r_def)
  have h2v: "h2 0x1000 = 0x41" "h2 0x1001 = 0x42" "h2 0x1002 = 0"
    by (simp_all add: h2_def s2_def h1_def s1_def s0_def run_defs)
  have "heap s3 0x1020 = 0x41" "heap s3 0x1021 = 0x42" "heap s3 0x1022 = 0"
    using c [rule_format, of 0] c [rule_format, of 1] c [rule_format, of 2] h2v
    by simp_all
  with r3 have "returned r = Some 0x1020 \<and> heap (final r) 0x1020 = 0x41 \<and>
      heap (final r) 0x1021 = 0x42 \<and> heap (final r) 0x1022 = 0"
    by (simp add: returned_def final_def)
  then show ?thesis
    by (simp add: Let_def r_def h2_def s2_def h1_def s1_def s0_def)
qed

text \<open>
  C7 as stated fails for a block of size 0: \<^verbatim>\<open>old_size == 0\<close> makes
  \<^verbatim>\<open>arena_aligned_realloc\<close> hand the request to \<^verbatim>\<open>arena_aligned_alloc\<close>, and after two
  allocations of size 0 at offset 0 the new block of 8 bytes starts at offset 0 as well:
  the pointer returned is \<open>P\<close> itself.
\<close>

theorem realloc_zero_size_same_pointer:
  "(let r1 = arena_aligned_alloc (arena_init dirty 0x1000 64) 16 0;
        r2 = arena_aligned_alloc (final r1) 16 0;
        r3 = arena_aligned_realloc (final r2) 16 0x1000 0 8
    in returned r1 = Some 0x1000 \<and> returned r2 = Some 0x1000 \<and>
       mem (ar (final r2)) \<le> 0x1000 \<and> 0x1000 < mem (ar (final r2)) + cap (ar (final r2)) \<and>
       r3 = arena_aligned_alloc (final r2) 16 8 \<and>
       returned r3 = Some 0x1000 \<and> returned r3 = returned r1)"
  by (simp add: run_defs)

text \<open>
  When the fresh allocation of the relocation path fails, the copy of a non-empty
  prefix goes to the null pointer.
\<close>

lemma realloc_oom_faults:
  assumes "pow_2 al" and "old \<noteq> NULL" "N \<noteq> 0" "M \<noteq> 0"
    and "mem (ar s) \<le> old \<and> old < mem (ar s) + cap (ar s)"
    and "mem (ar s) + prev_offset (ar s) \<noteq> old"
    and "arena_aligned_alloc s al M = Inr (NULL, s1)"
  shows "arena_aligned_realloc s al old N M = Inl (NullPointer, s1)"
  using assms by (simp add: arena_aligned_realloc_def Let_def memmove_def)

text \<open>
  In \<^verbatim>\<open>arena_memdup\<close> a failed allocation is returned as it is, with no copy.
\<close>

lemma memdup_failure:
  "arena_alloc s sz = Inr (NULL, s1) \<Longrightarrow> arena_memdup s src sz = Inr (NULL, s1)"
  by (simp add: arena_memdup_def)

text \<open>
  C8: on the relocation path the result of \<^verbatim>\<open>arena_aligned_alloc\<close> is passed to
  \<^verbatim>\<open>memmove\<close> without a test for \<^verbatim>\<open>NULL\<close> (the test \<^verbatim>\<open>arena_memdup\<close> makes before its
  \<^verbatim>\<open>memcpy\<close>). In an arena of 32 bytes holding two blocks of 8, reallocating the first
  block to 16 bytes finds no room; the inner allocation returns \<^verbatim>\<open>NULL\<close> with
  \<^verbatim>\<open>ENOMEM\<close>, and the code then copies 8 bytes to the null pointer.
\<close>

theorem realloc_null_memmove:
  "(let r1 = arena_aligned_alloc (arena_init dirty 0x1000 32) 16 8;
        r2 = arena_aligned_alloc (final r1) 16 8;
        r3 = arena_aligned_realloc (final r2) 16 0x1000 8 16
    in returned r1 = Some 0x1000 \<and> returned r2 = Some 0x1010 \<and>
       arena_aligned_alloc (final r2) 16 16 = Inr (NULL, (final r2)\<lparr>errno := ENOMEM\<rparr>) \<and>
       r3 = Inl (NullPointer, (final r2)\<lparr>errno := ENOMEM\<rparr>))"
  by (simp add: run_defs)

section \<open>String duplication\<close>

text \<open>
  What \<^verbatim>\<open>arena_strdup\<close> leaves behind when it returns a pointer: the copy of the string
  with its terminator in the \<^verbatim>\<open>strlen(src)+1\<close> bytes it allocated, and one more zero
  byte right after them.
\<close>

lemma takeWhile_shorter: "x \<in> set xs \<Longrightarrow> \<not> P x \<Longrightarrow> length (takeWhile P xs) < length xs"
  by (induction xs) auto

lemma strlen_Inr:
  assumes "strlen src = Inr l" and "length src < 2 ^ 64"
  shows "unat l < length src" and "src ! unat l = 0" and "unat (l + 1) = unat l + 1"
proof -
  define n where "n = length (takeWhile (\<lambda>b. b \<noteq> 0) src)"
  from assms(1) have z: "0 \<in> set src" and l: "l = word_of_nat n"
    by (auto simp: strlen_def n_def split: if_splits)
  have "n < length src"
    unfolding n_def using z by (rule takeWhile_shorter) simp
  moreover from this assms(2) have "unat l = n"
    by (simp add: l unat_of_nat)
  ultimately show "unat l < length src" by simp
  have "\<not> (src ! n \<noteq> 0)"
    unfolding n_def using \<open>n < length src\<close> [unfolded n_def] by (rule nth_length_takeWhile)
  then show "src ! unat l = 0" using \<open>unat l = n\<close> by simp
  show "unat (l + 1) = unat l + 1"
    using \<open>unat l = n\<close> \<open>n < length src\<close> assms(2) by (simp add: unat_plus_if')
qed

lemma strdup_result:
  assumes r: "arena_strdup s src = Inr (p, s')" and p: "p \<noteq> NULL"
    and len: "length src < 2 ^ 64"
  shows "\<exists>l. strlen src = Inr l \<and> src ! unat l = 0 \<and>
           (\<forall>i. i \<le> l \<longrightarrow> heap s' (p + i) = src ! unat i) \<and>
           curr_offset (ar s') = prev_offset (ar s') + (l + 1) \<and>
           p = mem (ar s') + prev_offset (ar s') \<and>
           heap s' (p + (l + 1)) = 0"
proof -
  from r obtain l where l: "strlen src = Inr l"
    by (cases "strlen src") (simp_all add: arena_strdup_def)
  note sl = strlen_Inr [OF l len]
  from sl(3) have ne: "l + 1 \<noteq> 0" by (auto simp: unsigned_eq_0_iff)
  from r l p obtain s1 s2 where
    a: "arena_aligned_alloc s 16 (l + 1) = Inr (p, s1)"
    and c: "memcpy s1 p src (l + 1) = Inr s2"
    and st: "store_byte s2 (p + (l + 1)) 0 = Inr s'"
    by (auto simp: arena_strdup_def arena_alloc_def ARENA_DEFAULT_ALIGNMENT_def Let_def
        split: sum.splits if_splits)
  from c ne have h2: "heap s2 = (\<lambda>x. if x - p < l + 1 then src ! unat (x - p) else heap s1 x)"
    and ar2: "ar s2 = ar s1"
    by (auto simp: memcpy_def split: if_splits)
  from st have h3: "heap s' = (heap s2)(p + (l + 1) := 0)" and ar3: "ar s' = ar s2"
    by (auto simp: store_byte_def split: if_splits)
  have copy: "heap s' (p + i) = src ! unat i" if "i \<le> l" for i
  proof -
    from that sl(3) have "i < l + 1" by (simp add: word_less_nat_alt word_le_nat_alt)
    moreover from this have "i \<noteq> l + 1" by auto
    ultimately show ?thesis by (simp add: h3 h2)
  qed
  note al = alloc_success(3) [OF a p]
  have "curr_offset (ar s') = prev_offset (ar s') + (l + 1)"
    and "p = mem (ar s') + prev_offset (ar s')"
    by (simp_all add: ar3 ar2 al)
  moreover have "heap s' (p + (l + 1)) = 0" by (simp add: h3)
  ultimately show ?thesis using l sl(2) copy by blast
qed

text \<open>
  \<^verbatim>\<open>arena_strndup\<close> allocates one byte more than it copies, so its terminator lies
  within the allocation: the same string fits an arena of 4 bytes.
\<close>

lemma strndup_fits:
  "(let r = arena_strndup (arena_init dirty 0x1000 4) [0x61, 0x62, 0x63, 0] 3
    in returned r = Some 0x1000 \<and> faulted r = None \<and> curr_offset (ar (final r)) = 4 \<and>
       heap (final r) 0x1000 = 0x61 \<and> heap (final r) 0x1002 = 0x63 \<and> heap (final r) 0x1003 = 0)"
  by (simp add: run_defs arena_strndup_def strnlen_def)

text \<open>
  C9: \<^verbatim>\<open>arena_strdup\<close> allocates \<^verbatim>\<open>len = strlen(src)+1\<close> bytes, copies \<^verbatim>\<open>len\<close> bytes
  and then stores a zero at \<^verbatim>\<open>dup[len]\<close>, one byte past the allocation
  (\<^verbatim>\<open>arena_strndup\<close> allocates \<^verbatim>\<open>len+1\<close> bytes for the same store). Duplicating
  \<^verbatim>\<open>"abc"\<close> into an arena of 16 bytes overwrites the byte at offset 4, which the call
  did not allocate; into an arena of exactly 4 bytes, where the string fits, the store
  falls outside the arena's block.
\<close>

theorem strdup_writes_past_allocation:
  "(let s = arena_init dirty 0x1000 16;
        r = arena_strdup s [0x61, 0x62, 0x63, 0]
    in returned r = Some 0x1000 \<and> curr_offset (ar (final r)) = 4 \<and>
       heap s 0x1004 = 0xFF \<and> heap (final r) 0x1004 = 0 \<and>
       faulted (arena_strdup (arena_init dirty 0x1000 4) [0x61, 0x62, 0x63, 0]) = Some OutOfBounds)"
  by (simp add: run_defs)

end
